theory Spec2Isabelle
  imports Complex_Main
begin

section \<open>Exceptions\<close>

text \<open>
  The notebook signals failure by raising. \<open>Resample\<close> is
  \<^verbatim>\<open>Exception("Please sample again")\<close>, \<open>BadBase\<close> is
  \<^verbatim>\<open>Exception("Please choose another a")\<close>, \<open>InvalidArgument\<close> is
  \<^verbatim>\<open>Exception('The success rate should be between 0 and 1')\<close>; the others are
  the exceptions of the interpreter and of numpy.
\<close>

datatype error = Resample | BadBase | InvalidArgument
  | ZeroDivisionError | ValueError | OverflowError | TypeError

section \<open>Classical Shor\<close>

subsection \<open>\<open>is_prime\<close>\<close>

text \<open>
  The \<^verbatim>\<open>while i * i <= n\<close> loop of \<^verbatim>\<open>is_prime\<close>. It is entered with
  \<open>i = 5\<close> and \<open>i\<close> only grows, so neither \<open>i\<close> nor \<open>i + 2\<close> is ever zero and
  \<^verbatim>\<open>%\<close> never raises there.
\<close>

function is_prime_loop :: "int \<Rightarrow> int \<Rightarrow> bool" where
  "is_prime_loop n i =
     (if i * i \<le> n
      then (if n mod i = 0 \<or> n mod (i + 2) = 0 then False
            else is_prime_loop n (i + 6))
      else True)"
  by pat_completeness auto
termination
proof (relation "measure (\<lambda>(n, i). nat (n + 1 - i))")
  show "wf (measure (\<lambda>(n::int, i::int). nat (n + 1 - i)))" by simp
next
  fix n i :: int
  assume le: "i * i \<le> n"
  have "i \<le> i * i"
  proof (cases "i \<le> 0")
    case True
    then have "0 \<le> i * i" by simp
    with True show ?thesis by linarith
  next
    case False
    then have "1 \<le> i" by simp
    then have "1 * i \<le> i * i" by (intro mult_right_mono) simp_all
    then show ?thesis by simp
  qed
  with le have "i \<le> n" by linarith
  then show "((n, i + 6), (n, i)) \<in> measure (\<lambda>(n, i). nat (n + 1 - i))"
    by simp
qed

definition is_prime :: "int \<Rightarrow> bool" where
  "is_prime n =
     (if n \<le> 1 then False
      else if n \<le> 3 then True
      else if n mod 2 = 0 \<or> n mod 3 = 0 then False
      else is_prime_loop n 5)"

text \<open>
  What the comment \<^verbatim>\<open># returns True if n is prime\<close> asks for, stated on its own:
  \<open>n\<close> is greater than 1 and no number from 2 to \<open>n - 1\<close> divides it.
\<close>

definition prime_int :: "int \<Rightarrow> bool" where
  "prime_int n \<longleftrightarrow> 1 < n \<and> (\<forall>d\<in>{2..n - 1}. \<not> d dvd n)"

subsection \<open>\<open>find_period_classical\<close>\<close>

text \<open>
  \<^verbatim>\<open>while(pow(g, e, N) != 1): e = e+1\<close> has no bound, so the loop is a partial
  function: \<open>None\<close> is "never returns". The exponent starts at 1 and is only
  incremented, so it is a natural number. For \<open>N \<noteq> 0\<close> Python's three-argument
  \<^verbatim>\<open>pow\<close> is the floored remainder \<open>g ^ e mod N\<close>, which is HOL's \<open>mod\<close> on
  \<open>int\<close>; for \<open>N = 0\<close> it raises \<^verbatim>\<open>ValueError\<close>.
\<close>

partial_function (option) find_period_loop :: "int \<Rightarrow> int \<Rightarrow> nat \<Rightarrow> nat option" where
  "find_period_loop g N e =
     (if g ^ e mod N \<noteq> 1 then find_period_loop g N (e + 1) else Some e)"

declare find_period_loop.simps [code]

definition find_period_classical :: "int \<Rightarrow> int \<Rightarrow> (error + nat) option" where
  "find_period_classical g N =
     (if N = 0 then Some (Inl ValueError)
      else map_option Inr (find_period_loop g N 1))"

subsection \<open>\<open>classical_Shor\<close>\<close>

text \<open>
  \<^verbatim>\<open>random.randint(2, N - 1)\<close> is the only effect of the driver. The values it
  returns are supplied as the list \<open>draws\<close>, one per iteration of
  \<^verbatim>\<open>while True\<close>; \<^verbatim>\<open>randint\<close> raises \<^verbatim>\<open>ValueError\<close> on an empty range.
  The result \<open>None\<close> means that the driver has not returned: either the draws supplied
  are used up, or the period search does not return.
\<close>

fun classical_Shor_loop :: "int \<Rightarrow> int list \<Rightarrow> (error + int \<times> int) option" where
  "classical_Shor_loop N [] = (if N - 1 < 2 then Some (Inl ValueError) else None)"
| "classical_Shor_loop N (a # draws) =
     (if N - 1 < 2 then Some (Inl ValueError)
      else if gcd a N \<noteq> 1 then Some (Inr (gcd a N, N div gcd a N))
      else
        (case find_period_classical a N of
           None \<Rightarrow> None
         | Some (Inl err) \<Rightarrow> Some (Inl err)
         | Some (Inr r) \<Rightarrow>
             if r mod 2 = 0 then
               (let x = a ^ (r div 2) mod N;
                    p = gcd (x - 1) N;
                    q = gcd (x + 1) N
                in if p \<noteq> 1 \<and> p \<noteq> N then Some (Inr (p, N div p))
                   else if q \<noteq> 1 \<and> q \<noteq> N then Some (Inr (q, N div q))
                   else classical_Shor_loop N draws)
             else classical_Shor_loop N draws))"

definition classical_Shor :: "int \<Rightarrow> int list \<Rightarrow> (error + int \<times> int) option" where
  "classical_Shor N draws =
     (if N mod 2 = 0 then Some (Inr (2, N div 2))
      else if is_prime N then Some (Inr (1, N))
      else classical_Shor_loop N draws)"

section \<open>Quantum Shor: classical post-processing\<close>

subsection \<open>\<open>get_r_candidates\<close>\<close>

text \<open>
  \<^verbatim>\<open>Rational(approx)\<close> is the exact rational value of the measured phase, so the
  argument is a \<open>rat\<close>.
\<close>

text \<open>
  Modelled from the spec: \<^verbatim>\<open>continued_fraction_iterator\<close> is imported from sympy and
  is not part of the sources. The spec describes it as the continued-fraction expansion
  of the rational phase by the Euclidean algorithm: emit the integer part, stop when the
  fractional part is zero, otherwise continue with its reciprocal.
\<close>

function continued_fraction_iterator :: "rat \<Rightarrow> int list" where
  "continued_fraction_iterator x =
     (let i = \<lfloor>x\<rfloor>; x' = x - of_int i
      in if x' = 0 then [i] else i # continued_fraction_iterator (1 / x'))"
  by pat_completeness auto
termination
proof (relation "measure (\<lambda>x. nat (snd (quotient_of x)))")
  show "wf (measure (\<lambda>x. nat (snd (quotient_of x))))" by simp
next
  fix x :: rat and i :: int and x' :: rat
  assume i: "i = \<lfloor>x\<rfloor>" and x': "x' = x - of_int i" and nz: "x' \<noteq> 0"
  obtain n d where nd: "quotient_of x = (n, d)" by (cases "quotient_of x")
  then have d: "0 < d" and cop: "coprime n d" and x: "x = of_int n / of_int d"
    by (simp_all add: quotient_of_denom_pos quotient_of_coprime quotient_of_div)
  have fl: "\<lfloor>x\<rfloor> = n div d"
    unfolding x by (simp add: floor_divide_of_int_eq)
  have x'eq: "x' = of_int (n mod d) / of_int d"
  proof -
    have "(of_int n :: rat) = of_int (n div d) * of_int d + of_int (n mod d)"
      by (metis div_mult_mod_eq of_int_add of_int_mult)
    then have "(of_int n :: rat) / of_int d - of_int (n div d) = of_int (n mod d) / of_int d"
      using d by (simp add: field_simps)
    then show ?thesis
      by (simp add: x' i fl x [symmetric])
  qed
  have m: "0 < n mod d" "n mod d < d"
  proof -
    have "0 \<le> n mod d" using d by simp
    moreover have "n mod d \<noteq> 0" using nz x'eq by auto
    ultimately show "0 < n mod d" by simp
    show "n mod d < d" using d by simp
  qed
  have copm: "coprime d (n mod d)"
    using cop d by (simp add: coprime_commute)
  have inv: "1 / x' = of_int d / of_int (n mod d)"
    unfolding x'eq by simp
  have "quotient_of (1 / x') = (d, n mod d)"
    unfolding inv using m(1) copm
    by (simp add: Fract_of_int_quotient [symmetric] quotient_of_Fract normalize_stable)
  then show "(1 / x', x) \<in> measure (\<lambda>x. nat (snd (quotient_of x)))"
    using nd m by simp
qed

declare continued_fraction_iterator.simps [simp del]

text \<open>
  Modelled from the spec: \<^verbatim>\<open>continued_fraction_convergents\<close> is imported from sympy
  and is not part of the sources. The spec asks for the successive convergents of the
  expansion; they are given by the standard recurrence
  \<open>p\<^sub>k = a\<^sub>k p\<^sub>k\<^sub>-\<^sub>1 + p\<^sub>k\<^sub>-\<^sub>2\<close>, \<open>q\<^sub>k = a\<^sub>k q\<^sub>k\<^sub>-\<^sub>1 + q\<^sub>k\<^sub>-\<^sub>2\<close> started from \<open>0/1\<close> and \<open>1/0\<close>,
  each convergent being the rational number \<open>p\<^sub>k / q\<^sub>k\<close>.
\<close>

fun convergents_from :: "int \<Rightarrow> int \<Rightarrow> int \<Rightarrow> int \<Rightarrow> int list \<Rightarrow> rat list" where
  "convergents_from p_2 q_2 p_1 q_1 [] = []"
| "convergents_from p_2 q_2 p_1 q_1 (a # cf) =
     (let p = a * p_1 + p_2; q = a * q_1 + q_2
      in (of_int p / of_int q) # convergents_from p_1 q_1 p q cf)"

definition continued_fraction_convergents :: "int list \<Rightarrow> rat list" where
  "continued_fraction_convergents cf = convergents_from 0 1 1 0 cf"

text \<open>
  The denominators \<open>q\<^sub>k\<close> of that recurrence alone, for stating what
  \<^verbatim>\<open>get_r_candidates\<close> returns.
\<close>

fun denominators_from :: "int \<Rightarrow> int \<Rightarrow> int list \<Rightarrow> int list" where
  "denominators_from q_2 q_1 [] = []"
| "denominators_from q_2 q_1 (a # cf) =
     (let q = a * q_1 + q_2 in q # denominators_from q_1 q cf)"

text \<open>
  \<^verbatim>\<open>[rat.q for rat in rationals]\<close>: the denominator of each convergent, written in
  lowest terms with a positive denominator.
\<close>

definition get_r_candidates :: "rat \<Rightarrow> nat list" where
  "get_r_candidates approx =
     map (\<lambda>rat. nat (snd (quotient_of rat)))
       (continued_fraction_convergents (continued_fraction_iterator approx))"

subsection \<open>\<open>binary_to_float\<close>\<close>

text \<open>
  Bit \<open>i\<close> of a measured bitstring, counted from the left, contributes \<open>2\<^sup>-\<^sup>(\<^sup>i\<^sup>+\<^sup>1\<^sup>)\<close>.
  The sums are dyadic rationals, which the floats of the source hold exactly for the
  register widths in use.
\<close>

definition binary_to_float :: "string list \<Rightarrow> rat list" where
  "binary_to_float binaries =
     map (\<lambda>binary.
            foldl (\<lambda>decimal (i, bit).
                     if bit = CHR ''1'' then decimal + 1 / 2 ^ (i + 1) else decimal)
              0 (enumerate 0 binary))
       binaries"

subsection \<open>\<open>quantum_shor_qiskit\<close>\<close>

text \<open>
  The \<^verbatim>\<open>for cand in sorted(set(r_candidates))\<close> loop with its \<^verbatim>\<open>else\<close> branch.
  \<^verbatim>\<open>(a**cand)%N\<close> raises \<^verbatim>\<open>ZeroDivisionError\<close> for \<open>N = 0\<close>. The candidates are
  denominators, hence natural numbers. (The first version of the notebook runs the same
  loop over the pool as measured; \<^verbatim>\<open>quantum_shor_qiskit\<close> sorts it first.)
\<close>

fun first_valid :: "int \<Rightarrow> int \<Rightarrow> nat list \<Rightarrow> error + nat" where
  "first_valid a N [] = Inl Resample"
| "first_valid a N (cand # cands) =
     (if N = 0 then Inl ZeroDivisionError
      else if a ^ cand mod N = 1 then Inr cand
      else first_valid a N cands)"

definition accepted_period :: "int \<Rightarrow> int \<Rightarrow> nat list \<Rightarrow> error + nat" where
  "accepted_period a N r_candidates = first_valid a N (sort (remdups r_candidates))"

subsubsection \<open>\<^verbatim>\<open>np.gcd\<close> on Python integers\<close>

text \<open>
  \<^verbatim>\<open>np.gcd\<close> is a numpy ufunc with fixed-width integer loops. numpy gives a Python
  integer the type \<open>int64\<close> when it fits, \<open>uint64\<close> when it lies in \<open>[2\<^sup>6\<^sup>3, 2\<^sup>6\<^sup>4)\<close>, and
  keeps it as a Python object otherwise. Two \<open>int64\<close> or two \<open>uint64\<close> operands use the
  loop of that width, an operand kept as an object makes the call fall back on Python's
  unbounded gcd, and a \<open>uint64\<close> operand with an \<open>int64\<close> one has no loop: the call
  raises (a \<^verbatim>\<open>TypeError\<close> in the numpy 1.x line). The result carries its type along,
  as the division that follows depends on it. (Two \<open>int64\<close> operands whose gcd is \<open>2\<^sup>6\<^sup>3\<close>
  are both in \<open>{0, -2\<^sup>6\<^sup>3}\<close>; the second operand here is a modulus that has passed
  the validation, which is greater than 1.)
\<close>

datatype np_dtype = Int64 | UInt64 | Object

definition np_dtype_of :: "int \<Rightarrow> np_dtype" where
  "np_dtype_of v =
     (if - (2 ^ 63) \<le> v \<and> v < 2 ^ 63 then Int64
      else if 2 ^ 63 \<le> v \<and> v < 2 ^ 64 then UInt64
      else Object)"

definition np_gcd :: "int \<Rightarrow> int \<Rightarrow> error + np_dtype \<times> int" where
  "np_gcd x y =
     (let tx = np_dtype_of x; ty = np_dtype_of y
      in if tx = Object \<or> ty = Object then Inr (Object, gcd x y)
         else if tx = ty then Inr (tx, gcd x y)
         else Inl TypeError)"

subsubsection \<open>\<^verbatim>\<open>int(N/p)\<close>: a float division\<close>

text \<open>
  \<^verbatim>\<open>N/p\<close> is a true division: its result is a binary64 float. \<open>binary64\<close> rounds a
  rational number to the nearest float, ties to the even significand, with 53 bits of
  significand and the subnormal spacing \<open>2\<^sup>-\<^sup>1\<^sup>0\<^sup>7\<^sup>4\<close>; a result of magnitude \<open>2\<^sup>1\<^sup>0\<^sup>2\<^sup>4\<close> or more
  is an overflow.
\<close>

definition pow2 :: "int \<Rightarrow> rat" where
  "pow2 e = (if 0 \<le> e then 2 ^ nat e else 1 / 2 ^ nat (- e))"

text \<open>The number of binary digits of a positive integer.\<close>

function bit_length :: "int \<Rightarrow> int" where
  "bit_length n = (if n \<le> 0 then 0 else 1 + bit_length (n div 2))"
  by pat_completeness auto
termination
  by (relation "measure nat") simp_all

declare bit_length.simps [simp del]

text \<open>For \<open>x > 0\<close>, the exponent \<open>e\<close> with \<open>2\<^sup>e \<le> x < 2\<^sup>e\<^sup>+\<^sup>1\<close>.\<close>

definition floor_log2 :: "rat \<Rightarrow> int" where
  "floor_log2 x =
     (let k = bit_length (fst (quotient_of x)) - bit_length (snd (quotient_of x))
      in if pow2 k \<le> x then k else k - 1)"

definition round_half_even :: "rat \<Rightarrow> int" where
  "round_half_even m =
     (let f = \<lfloor>m\<rfloor>; r = m - of_int f
      in if r < 1 / 2 then f
         else if 1 / 2 < r then f + 1
         else if even f then f else f + 1)"

definition binary64 :: "rat \<Rightarrow> rat" where
  "binary64 x =
     (if x = 0 then 0
      else (let e = max (floor_log2 \<bar>x\<bar> - 52) (- 1074)
            in of_int (round_half_even (x / pow2 e)) * pow2 e))"

text \<open>\<^verbatim>\<open>int(x)\<close> truncates towards zero.\<close>

definition py_int :: "rat \<Rightarrow> int" where
  "py_int x = (if 0 \<le> x then \<lfloor>x\<rfloor> else \<lceil>x\<rceil>)"

text \<open>
  \<^verbatim>\<open>int(N/p)\<close> for the result \<open>p\<close> of \<^verbatim>\<open>np.gcd\<close>. When \<open>p\<close> is a Python integer
  the division is Python's: the exact quotient rounded once, \<^verbatim>\<open>ZeroDivisionError\<close>
  for a zero divisor, \<^verbatim>\<open>OverflowError\<close> when the quotient is too large for a float. When
  \<open>p\<close> is a numpy integer, both operands are converted to floats and then divided, which
  rounds three times; a zero divisor yields an infinity or a NaN, on which \<^verbatim>\<open>int\<close>
  raises \<^verbatim>\<open>OverflowError\<close> or \<^verbatim>\<open>ValueError\<close>. A modulus beyond 64 bits is divided as
  a Python integer.
\<close>

definition int_of_quotient :: "int \<Rightarrow> np_dtype \<times> int \<Rightarrow> error + int" where
  "int_of_quotient N p =
     (if fst p = Object \<or> np_dtype_of N = Object then
        (if snd p = 0 then Inl ZeroDivisionError
         else (let q = binary64 (of_int N / of_int (snd p))
               in if 2 ^ 1024 \<le> \<bar>q\<bar> then Inl OverflowError else Inr (py_int q)))
      else
        (if snd p = 0 then (if N = 0 then Inl ValueError else Inl OverflowError)
         else Inr (py_int (binary64 (binary64 (of_int N) / binary64 (of_int (snd p)))))))"

text \<open>
  The body of \<^verbatim>\<open>quantum_shor_qiskit\<close> from the pooled candidate list on:
  \<^verbatim>\<open>p = np.gcd(a**(r//2)+1, N)\<close>, \<^verbatim>\<open>q = int(N/p)\<close>, and the swap.
\<close>

definition factor_from_candidates :: "int \<Rightarrow> int \<Rightarrow> nat list \<Rightarrow> error + int \<times> int" where
  "factor_from_candidates a N r_candidates =
     (case accepted_period a N r_candidates of
        Inl err \<Rightarrow> Inl err
      | Inr r \<Rightarrow>
          if r mod 2 \<noteq> 0 then Inl BadBase
          else
            (case np_gcd (a ^ (r div 2) + 1) N of
               Inl err \<Rightarrow> Inl err
             | Inr p \<Rightarrow>
                 (case int_of_quotient N p of
                    Inl err \<Rightarrow> Inl err
                  | Inr q \<Rightarrow> if snd p > q then Inr (q, snd p) else Inr (snd p, q))))"

text \<open>
  \<^verbatim>\<open>quantum_shor_qiskit(a, N)\<close>, given the bitstrings \<open>meas_keys\<close> that the simulated
  backend reports for \<^verbatim>\<open>find_order_qiskit(a, N)\<close>.
\<close>

definition quantum_shor_qiskit :: "int \<Rightarrow> int \<Rightarrow> string list \<Rightarrow> error + int \<times> int" where
  "quantum_shor_qiskit a N meas_keys =
     factor_from_candidates a N
       (concat (map get_r_candidates (binary_to_float meas_keys)))"

section \<open>Error-rate upper bound\<close>













section \<open>Properties of period validation and factor recovery\<close>

lemma first_valid_Inr:
  "first_valid a N xs = Inr r \<Longrightarrow> N \<noteq> 0 \<and> r \<in> set xs \<and> a ^ r mod N = 1"
  by (induction xs) (auto split: if_splits)

lemma first_valid_least:
  "sorted xs \<Longrightarrow> first_valid a N xs = Inr r \<Longrightarrow> c \<in> set xs \<Longrightarrow> a ^ c mod N = 1 \<Longrightarrow> r \<le> c"
  by (induction xs) (auto split: if_splits dest: first_valid_Inr)

lemma first_valid_Resample:
  "N \<noteq> 0 \<Longrightarrow> first_valid a N xs = Inl Resample \<longleftrightarrow> (\<forall>c\<in>set xs. a ^ c mod N \<noteq> 1)"
  by (induction xs) auto

lemma first_valid_cases:
  "N \<noteq> 0 \<Longrightarrow> first_valid a N xs = Inl Resample \<or> (\<exists>r. first_valid a N xs = Inr r)"
  by (induction xs) auto

lemma accepted_period_Inr:
  "accepted_period a N cs = Inr r \<Longrightarrow> N \<noteq> 0 \<and> r \<in> set cs \<and> a ^ r mod N = 1"
  unfolding accepted_period_def by (drule first_valid_Inr) simp

lemma accepted_period_least:
  "accepted_period a N cs = Inr r \<Longrightarrow> c \<in> set cs \<Longrightarrow> a ^ c mod N = 1 \<Longrightarrow> r \<le> c"
  unfolding accepted_period_def by (erule first_valid_least [rotated]) simp_all

lemma accepted_period_Resample:
  "N \<noteq> 0 \<Longrightarrow> accepted_period a N cs = Inl Resample \<longleftrightarrow> (\<forall>c\<in>set cs. a ^ c mod N \<noteq> 1)"
  unfolding accepted_period_def by (simp add: first_valid_Resample)

lemma accepted_period_cases:
  "N \<noteq> 0 \<Longrightarrow> accepted_period a N cs = Inl Resample \<or> (\<exists>r. accepted_period a N cs = Inr r)"
  unfolding accepted_period_def by (rule first_valid_cases)

lemma py_int_of_int [simp]: "py_int (of_int k) = k"
  by (simp add: py_int_def)

lemma modulus_of_valid_period:
  assumes "a ^ r mod N = (1::int)" "N \<noteq> 0"
  shows "1 < N"
proof -
  have "N < 0 \<Longrightarrow> a ^ r mod N \<le> 0" by simp
  moreover have "N = 1 \<Longrightarrow> a ^ r mod N = 0" by simp
  ultimately show ?thesis using assms by (cases "N < 0"; cases "N = 1") auto
qed

subsection \<open>Floats hold the integers below \<open>2\<^sup>5\<^sup>3\<close> exactly\<close>

lemma bit_length_le:
  "0 < n \<Longrightarrow> n < 2 ^ m \<Longrightarrow> bit_length n \<le> int m"
proof (induction m arbitrary: n)
  case 0
  then show ?case by simp
next
  case (Suc m)
  show ?case
  proof (cases "n div 2 = 0")
    case True
    then have "bit_length (n div 2) = 0" by (subst bit_length.simps) simp
    with Suc.prems(1) show ?thesis by (subst bit_length.simps) simp
  next
    case False
    with Suc.prems(1) have pos: "0 < n div 2" by (simp add: pos_imp_zdiv_pos_iff)
    have "n div 2 < 2 ^ m" using Suc.prems(2) by simp
    with pos have "bit_length (n div 2) \<le> int m" by (rule Suc.IH)
    with Suc.prems(1) show ?thesis by (subst bit_length.simps) simp
  qed
qed

lemma bit_length_one: "bit_length 1 = 1"
  by (subst bit_length.simps, subst bit_length.simps) simp

lemma floor_log2_of_int_le:
  assumes "0 < k" "k < 2 ^ 53"
  shows "floor_log2 (of_int k) \<le> 52"
proof -
  have "bit_length k \<le> 53" using bit_length_le [OF assms] by simp
  then show ?thesis
    by (simp add: floor_log2_def Let_def bit_length_one)
qed

lemma round_half_even_of_int [simp]: "round_half_even (of_int m) = m"
  by (simp add: round_half_even_def)

lemma binary64_of_int:
  assumes "0 < k" "k < 2 ^ 53"
  shows "binary64 (of_int k) = of_int k"
proof -
  define e where "e = max (floor_log2 (rat_of_int k) - 52) (- 1074)"
  define j where "j = nat (- e)"
  have abs: "\<bar>rat_of_int k\<bar> = of_int k" using assms(1) by simp
  have "e \<le> 0" using floor_log2_of_int_le [OF assms] by (simp add: e_def)
  then have p: "pow2 e = 1 / 2 ^ j"
    by (cases "e = 0") (simp_all add: pow2_def j_def)
  have "rat_of_int k / pow2 e = of_int (k * 2 ^ j)" by (simp add: p)
  then have "round_half_even (rat_of_int k / pow2 e) = k * 2 ^ j"
    by (simp only: round_half_even_of_int)
  then have "of_int (round_half_even (rat_of_int k / pow2 e)) * pow2 e = rat_of_int k"
    by (simp add: p)
  then show ?thesis
    using assms(1) by (simp add: binary64_def Let_def abs e_def [symmetric])
qed

lemma int_of_quotient_exact:
  assumes N: "1 < N" "N < 2 ^ 53" and p: "0 < p" "p dvd N"
  shows "int_of_quotient N (dt, p) = Inr (N div p)"
proof -
  from p obtain k where k: "N = p * k" by (auto elim: dvdE)
  have kq: "N div p = k" using k p(1) by simp
  have "0 < p * k" using N(1) k by simp
  then have kpos: "0 < k" using p(1) by (rule zero_less_mult_pos)
  have "p \<le> N" using p N(1) by (intro zdvd_imp_le) simp_all
  with N(2) have p53: "p < 2 ^ 53" by simp
  have "1 * k \<le> p * k" using p(1) kpos by (intro mult_right_mono) simp_all
  with k N(2) have k53: "k < 2 ^ 53" by simp
  have quot: "rat_of_int N / rat_of_int p = of_int k" using k p(1) by simp
  have bN: "binary64 (of_int N) = of_int N" using N by (intro binary64_of_int) simp_all
  have bp: "binary64 (of_int p) = of_int p" using p(1) p53 by (rule binary64_of_int)
  have bk: "binary64 (of_int k) = of_int k" using kpos k53 by (rule binary64_of_int)
  have small: "\<not> (2::rat) ^ 1024 \<le> \<bar>of_int k\<bar>"
  proof -
    have "rat_of_int k < of_int (2 ^ 53)" using k53 by (simp only: of_int_less_iff)
    also have "\<dots> \<le> 2 ^ 1024" by simp
    finally show ?thesis using kpos by simp
  qed
  show ?thesis
    using p(1) small by (simp add: int_of_quotient_def Let_def bN bp quot bk kq)
qed

lemma np_gcd_in_range:
  assumes "np_dtype_of x \<noteq> UInt64" "np_dtype_of N = Int64"
  shows "np_gcd x N = Inr (np_dtype_of x, gcd x N)"
  using assms by (cases "np_dtype_of x") (simp_all add: np_gcd_def Let_def)

lemma np_dtype_of_UInt64: "np_dtype_of x = UInt64 \<longleftrightarrow> 2 ^ 63 \<le> x \<and> x < 2 ^ 64"
  by (simp add: np_dtype_of_def)

lemma np_dtype_of_modulus: "1 < N \<Longrightarrow> N < 2 ^ 53 \<Longrightarrow> np_dtype_of N = Int64"
  by (simp add: np_dtype_of_def)

subsection \<open>Factor recovery where the fixed-width arithmetic is exact\<close>

text \<open>
  As long as \<open>a\<^sup>r\<^sup>/\<^sup>2 + 1\<close> is outside \<open>[2\<^sup>6\<^sup>3, 2\<^sup>6\<^sup>4)\<close> and \<open>N < 2\<^sup>5\<^sup>3\<close>, an even accepted
  \<open>r\<close> yields the pair of \<open>p = gcd (a\<^sup>r\<^sup>/\<^sup>2 + 1) N\<close> and \<open>q = N / p\<close>, smaller one first,
  and the two multiply back to \<open>N\<close>.
\<close>

lemma factor_from_candidates_even:
  assumes acc: "accepted_period a N cs = Inr r" and ev: "even r"
    and gcd_ok: "\<not> (2 ^ 63 \<le> a ^ (r div 2) + 1 \<and> a ^ (r div 2) + 1 < 2 ^ 64)"
    and N53: "N < 2 ^ 53"
  shows "factor_from_candidates a N cs =
           Inr (min (gcd (a ^ (r div 2) + 1) N) (N div gcd (a ^ (r div 2) + 1) N),
                max (gcd (a ^ (r div 2) + 1) N) (N div gcd (a ^ (r div 2) + 1) N))"
proof -
  define x where "x = a ^ (r div 2) + 1"
  define p where "p = gcd x N"
  from accepted_period_Inr [OF acc] have N0: "N \<noteq> 0" and val: "a ^ r mod N = 1" by simp_all
  from modulus_of_valid_period [OF val N0] have N1: "1 < N" .
  have p0: "0 < p"
  proof -
    have "0 \<le> p" "p \<noteq> 0" using N0 by (simp_all add: p_def)
    then show ?thesis by simp
  qed
  have dvd: "p dvd N" by (simp add: p_def)
  have g: "np_gcd x N = Inr (np_dtype_of x, p)"
    unfolding p_def using gcd_ok np_dtype_of_modulus [OF N1 N53]
    by (intro np_gcd_in_range) (simp_all add: np_dtype_of_UInt64 x_def)
  have q: "int_of_quotient N (np_dtype_of x, p) = Inr (N div p)"
    using N1 N53 p0 dvd by (rule int_of_quotient_exact)
  have "factor_from_candidates a N cs =
          (if p > N div p then Inr (N div p, p) else Inr (p, N div p))"
    using acc ev g q by (simp add: factor_from_candidates_def x_def [symmetric])
  also have "\<dots> = Inr (min p (N div p), max p (N div p))"
    by (simp add: min_def max_def)
  finally show ?thesis by (simp add: p_def x_def)
qed

lemma gcd_cofactor: "gcd x N * (N div gcd x N) = (N::int)"
  by simp

lemma accepted_period_2_15:
  assumes four: "4 \<in> set cs" and pos: "0 \<notin> set cs"
  shows "accepted_period 2 15 cs = Inr 4"
proof -
  have "(2::int) ^ 4 mod 15 = 1" by simp
  with four have "\<not> (\<forall>c\<in>set cs. (2::int) ^ c mod 15 \<noteq> 1)" by blast
  then have "accepted_period 2 15 cs \<noteq> Inl Resample"
    by (simp add: accepted_period_Resample)
  with accepted_period_cases [of 15 2 cs]
  obtain r where r: "accepted_period 2 15 cs = Inr r" by auto
  from accepted_period_Inr [OF r] have rin: "r \<in> set cs" and val: "(2::int) ^ r mod 15 = 1"
    by simp_all
  from accepted_period_least [OF r four] have "r \<le> 4" by simp
  moreover from rin pos have "r \<noteq> 0" by (cases "r = 0") simp_all
  ultimately have "r = 1 \<or> r = 2 \<or> r = 3 \<or> r = 4" by arith
  with val have "r = 4" by auto
  with r show ?thesis by simp
qed

text \<open>No candidate is zero: each one is the denominator of a fraction in lowest terms.\<close>

lemma candidates_positive: "0 \<notin> set (concat (map get_r_candidates phases))"
proof -
  have "0 \<notin> set (get_r_candidates x)" for x
  proof
    assume "0 \<in> set (get_r_candidates x)"
    then obtain rat where "nat (snd (quotient_of rat)) = 0"
      by (auto simp: get_r_candidates_def)
    with quotient_of_denom_pos' [of rat] show False by simp
  qed
  then show ?thesis by auto
qed

text \<open>
  The accepted period, the result for an even accepted period within the range of the
  fixed-width arithmetic, and the case \<open>a = 2\<close>, \<open>N = 15\<close> for measurements whose pooled
  candidates contain 4.
\<close>

lemma period_validation_and_factor_recovery_in_range:
  "(accepted_period a N cs = Inr r \<longrightarrow>
      r \<in> set cs \<and> a ^ r mod N = 1 \<and> (\<forall>c\<in>set cs. a ^ c mod N = 1 \<longrightarrow> r \<le> c))
   \<and> (N \<noteq> 0 \<and> (\<exists>c\<in>set cs. a ^ c mod N = 1) \<longrightarrow> (\<exists>r'. accepted_period a N cs = Inr r'))
   \<and> (accepted_period a N cs = Inr r \<and> even r \<and> N < 2 ^ 53
        \<and> \<not> (2 ^ 63 \<le> a ^ (r div 2) + 1 \<and> a ^ (r div 2) + 1 < 2 ^ 64) \<longrightarrow>
        (let p = gcd (a ^ (r div 2) + 1) N; q = N div p
         in factor_from_candidates a N cs = Inr (min p q, max p q)
            \<and> min p q * max p q = N))
   \<and> (4 \<in> set (concat (map get_r_candidates (binary_to_float meas_keys))) \<longrightarrow>
        quantum_shor_qiskit 2 15 meas_keys = Inr (3, 5))"
proof (intro conjI impI)
  assume acc: "accepted_period a N cs = Inr r"
  from accepted_period_Inr [OF acc] show "r \<in> set cs" and "a ^ r mod N = 1" by simp_all
  from accepted_period_least [OF acc] show "\<forall>c\<in>set cs. a ^ c mod N = 1 \<longrightarrow> r \<le> c" by blast
next
  assume "N \<noteq> 0 \<and> (\<exists>c\<in>set cs. a ^ c mod N = 1)"
  then show "\<exists>r'. accepted_period a N cs = Inr r'"
    using accepted_period_cases [of N a cs] accepted_period_Resample [of N a cs] by auto
next
  assume h: "accepted_period a N cs = Inr r \<and> even r \<and> N < 2 ^ 53
        \<and> \<not> (2 ^ 63 \<le> a ^ (r div 2) + 1 \<and> a ^ (r div 2) + 1 < 2 ^ 64)"
  have "min (gcd (a ^ (r div 2) + 1) N) (N div gcd (a ^ (r div 2) + 1) N)
        * max (gcd (a ^ (r div 2) + 1) N) (N div gcd (a ^ (r div 2) + 1) N) = N"
    using gcd_cofactor [of "a ^ (r div 2) + 1" N] by (simp add: min_def max_def mult.commute)
  moreover have "factor_from_candidates a N cs =
           Inr (min (gcd (a ^ (r div 2) + 1) N) (N div gcd (a ^ (r div 2) + 1) N),
                max (gcd (a ^ (r div 2) + 1) N) (N div gcd (a ^ (r div 2) + 1) N))"
    using h by (intro factor_from_candidates_even) simp_all
  ultimately show "let p = gcd (a ^ (r div 2) + 1) N; q = N div p
         in factor_from_candidates a N cs = Inr (min p q, max p q) \<and> min p q * max p q = N"
    by (simp add: Let_def)
next
  let ?pool = "concat (map get_r_candidates (binary_to_float meas_keys))"
  assume "4 \<in> set ?pool"
  then have acc: "accepted_period 2 15 ?pool = Inr 4"
    using candidates_positive by (rule accepted_period_2_15)
  have "factor_from_candidates 2 15 ?pool = Inr (3, 5)"
    using factor_from_candidates_even [OF acc] by simp
  then show "quantum_shor_qiskit 2 15 meas_keys = Inr (3, 5)"
    by (simp add: quantum_shor_qiskit_def)
qed

text \<open>
  Claim C1 says that an even accepted \<open>r\<close> always yields the pair of
  \<open>p = gcd (a\<^sup>r\<^sup>/\<^sup>2 + 1) N\<close> and \<open>q = N / p\<close>. The source computes \<open>p\<close> with \<^verbatim>\<open>np.gcd\<close>
  on the unreduced power. For \<open>a = 2\<close>, \<open>N = 9\<close> and the measured bitstring
  \<^verbatim>\<open>010111111\<close> (the phase \<open>191/512\<close>) the candidates are
  \<open>1, 2, 3, 8, 59, 67, 126, 193, 512\<close> and the accepted period is 126. The power
  \<open>2\<^sup>6\<^sup>3 + 1\<close> is a \<open>uint64\<close> for numpy, the modulus an \<open>int64\<close>, and \<^verbatim>\<open>np.gcd\<close> raises
  where the claim promises the pair \<open>(1, 9)\<close> of \<open>p = 9\<close> and \<open>q = 1\<close>. The same happens
  for \<open>a = 54\<close>, \<open>N = 115\<close> with the pooled candidates 1 and 22, where the claim promises
  \<open>(5, 23)\<close>.
\<close>

theorem np_gcd_raises_in_factor_recovery:
  "get_r_candidates (191 / 512) = [1, 2, 3, 8, 59, 67, 126, 193, 512]
   \<and> accepted_period 2 9 [1, 2, 3, 8, 59, 67, 126, 193, 512] = Inr 126
   \<and> np_dtype_of (2 ^ (126 div 2) + 1) = UInt64
   \<and> quantum_shor_qiskit 2 9 [''010111111''] = Inl TypeError
   \<and> gcd (2 ^ (126 div 2) + 1) 9 = (9::int)
   \<and> accepted_period 54 115 [1, 22] = Inr 22
   \<and> factor_from_candidates 54 115 [1, 22] = Inl TypeError
   \<and> gcd (54 ^ (22 div 2) + 1) 115 = (5::int)"
  by code_simp

section \<open>Error signalling of period validation\<close>

lemma np_gcd_error: "np_gcd x y = Inl err \<Longrightarrow> err = TypeError"
  by (auto simp: np_gcd_def Let_def split: if_splits)

lemma int_of_quotient_error:
  "int_of_quotient N p = Inl err \<Longrightarrow>
     err = ZeroDivisionError \<or> err = OverflowError \<or> err = ValueError"
  by (auto simp: int_of_quotient_def Let_def split: if_splits)

lemma factor_from_candidates_Resample:
  "factor_from_candidates a N cs = Inl Resample \<longleftrightarrow> accepted_period a N cs = Inl Resample"
  by (auto simp: factor_from_candidates_def split: sum.splits if_splits
      dest: np_gcd_error int_of_quotient_error)

lemma accepted_period_not_BadBase: "accepted_period a N cs \<noteq> Inl BadBase"
proof -
  have "first_valid a N xs \<noteq> Inl BadBase" for xs
    by (induction xs) auto
  then show ?thesis by (simp add: accepted_period_def)
qed

lemma factor_from_candidates_BadBase:
  "factor_from_candidates a N cs = Inl BadBase \<longleftrightarrow>
     (\<exists>r. accepted_period a N cs = Inr r \<and> odd r)"
  using accepted_period_not_BadBase [of a N cs]
  by (auto simp: factor_from_candidates_def odd_iff_mod_2_eq_one split: sum.splits if_splits
      dest: np_gcd_error int_of_quotient_error)

text \<open>
  Claim C2. For a modulus \<open>N \<noteq> 0\<close>, \<^verbatim>\<open>quantum_shor_qiskit\<close> raises "Please sample
  again" if and only if no candidate of the pool satisfies \<open>a\<^sup>r mod N = 1\<close>, and raises
  "Please choose another a" if and only if the accepted \<open>r\<close> is odd. In both cases the
  exception is the result of the routine: no factor pair is returned, and
  \<^verbatim>\<open>quantum_shor_qiskit\<close> hands on whatever the validation of the pooled candidates
  yields.
\<close>

theorem error_signalling_of_period_validation:
  assumes "N \<noteq> 0"
  shows "(factor_from_candidates a N cs = Inl Resample \<longleftrightarrow> (\<forall>c\<in>set cs. a ^ c mod N \<noteq> 1))
    \<and> (factor_from_candidates a N cs = Inl BadBase \<longleftrightarrow>
         (\<exists>r. accepted_period a N cs = Inr r \<and> odd r))
    \<and> ((\<forall>c\<in>set cs. a ^ c mod N \<noteq> 1) \<or> (\<exists>r. accepted_period a N cs = Inr r \<and> odd r) \<longrightarrow>
         (\<forall>pair. factor_from_candidates a N cs \<noteq> Inr pair))
    \<and> quantum_shor_qiskit a N meas_keys =
         factor_from_candidates a N (concat (map get_r_candidates (binary_to_float meas_keys)))"
proof -
  have r1: "factor_from_candidates a N cs = Inl Resample \<longleftrightarrow> accepted_period a N cs = Inl Resample"
    by (rule factor_from_candidates_Resample)
  have r2: "factor_from_candidates a N cs = Inl BadBase \<longleftrightarrow>
         (\<exists>r. accepted_period a N cs = Inr r \<and> odd r)"
    by (rule factor_from_candidates_BadBase)
  have r3: "factor_from_candidates a N cs = Inl Resample \<or> factor_from_candidates a N cs = Inl BadBase
      \<Longrightarrow> factor_from_candidates a N cs \<noteq> Inr pair" for pair
    by auto
  have r4: "(\<forall>c\<in>set cs. a ^ c mod N \<noteq> 1) \<or> (\<exists>r. accepted_period a N cs = Inr r \<and> odd r) \<longrightarrow>
         (\<forall>pair. factor_from_candidates a N cs \<noteq> Inr pair)"
    using r1 r2 r3 accepted_period_Resample [OF assms, of a cs] by blast
  show ?thesis
    using r1 r2 r4 accepted_period_Resample [OF assms, of a cs]
    by (simp add: quantum_shor_qiskit_def)
qed

text \<open>
  The statement at \<open>N = 21\<close> and the pool \<open>[3, 2]\<close>: the base 4 has the odd order 3,
  and no candidate is valid for the base 2.
\<close>

theorem error_signalling_of_period_validation_witness:
  "(21::int) \<noteq> 0 \<and> accepted_period 4 21 [3, 2] = Inr 3 \<and> odd (3::nat)
   \<and> factor_from_candidates 4 21 [3, 2] = Inl BadBase
   \<and> factor_from_candidates 4 21 [3, 2] \<noteq> Inl Resample
   \<and> factor_from_candidates 2 21 [3, 2] = Inl Resample"
  using error_signalling_of_period_validation [of 21 4 "[3, 2]"]
    error_signalling_of_period_validation [of 21 2 "[3, 2]"]
  by (simp add: accepted_period_def)

section \<open>Order of the returned pair\<close>

lemma factor_from_candidates_ordered:
  "factor_from_candidates a N cs = Inr (p, q) \<Longrightarrow> p \<le> q"
  by (auto simp: factor_from_candidates_def split: sum.splits if_splits)

text \<open>
  Claim C3 as stated fails: \<^verbatim>\<open>classical_Shor\<close> returns the factor it finds first and
  its cofactor second. For \<open>N = 15\<close> and the draw \<open>a = 5\<close> the first branch of the loop
  returns \<open>(gcd 5 15, 15 div 5) = (5, 3)\<close>.
\<close>

theorem factor_pair_order_counterexample:
  "classical_Shor 15 [5] = Some (Inr (5, 3)) \<and> (3::int) < 5"
  by (simp add: classical_Shor_def is_prime_def)

text \<open>
  Claim C3, amended. Every pair returned by \<^verbatim>\<open>quantum_shor_qiskit\<close> has the smaller
  factor first. \<^verbatim>\<open>classical_Shor\<close> returns an ordered pair on its even branch for
  \<open>N \<ge> 4\<close> and on its prime branch; the branches of its loop return the factor found and
  then the cofactor, in that order.
\<close>

theorem factor_pair_order:
  "(factor_from_candidates a N cs = Inr (p, q) \<longrightarrow> p \<le> q)
   \<and> (quantum_shor_qiskit a N meas_keys = Inr (p, q) \<longrightarrow> p \<le> q)
   \<and> (classical_Shor N draws = Some (Inr (p, q)) \<and> N mod 2 = 0 \<and> 4 \<le> N \<longrightarrow> p \<le> q)
   \<and> (classical_Shor N draws = Some (Inr (p, q)) \<and> N mod 2 \<noteq> 0 \<and> is_prime N \<longrightarrow> p \<le> q)"
proof (intro conjI impI)
  assume "factor_from_candidates a N cs = Inr (p, q)"
  then show "p \<le> q" by (rule factor_from_candidates_ordered)
next
  assume "quantum_shor_qiskit a N meas_keys = Inr (p, q)"
  then show "p \<le> q"
    unfolding quantum_shor_qiskit_def by (rule factor_from_candidates_ordered)
next
  assume "classical_Shor N draws = Some (Inr (p, q)) \<and> N mod 2 = 0 \<and> 4 \<le> N"
  then have "p = 2" "q = N div 2" "4 \<le> N" by (auto simp: classical_Shor_def)
  then show "p \<le> q" by simp
next
  assume h: "classical_Shor N draws = Some (Inr (p, q)) \<and> N mod 2 \<noteq> 0 \<and> is_prime N"
  then have "p = 1" "q = N" by (auto simp: classical_Shor_def)
  moreover from h have "1 < N" by (auto simp: is_prime_def split: if_splits)
  ultimately show "p \<le> q" by simp
qed

text \<open>
  The statement at \<open>a = 2\<close>, \<open>N = 15\<close> for the quantum routine, and at \<open>N = 10\<close> and
  \<open>N = 7\<close> for the classical driver.
\<close>

theorem factor_pair_order_witness:
  "factor_from_candidates 2 15 [4] = Inr (3, 5)
   \<and> quantum_shor_qiskit 2 15 [''010000000''] = Inr (3, 5)
   \<and> classical_Shor 10 [] = Some (Inr (2, 5)) \<and> (10::int) mod 2 = 0 \<and> (4::int) \<le> 10
   \<and> classical_Shor 7 [] = Some (Inr (1, 7)) \<and> (7::int) mod 2 \<noteq> 0 \<and> is_prime 7
   \<and> (3::int) \<le> 5 \<and> (2::int) \<le> 5 \<and> (1::int) \<le> 7"
  using factor_pair_order [where a = 2 and N = 15 and cs = "[4]" and p = 3 and q = 5
      and meas_keys = "[''010000000'']"]
    factor_pair_order [where N = 10 and draws = "[]" and p = 2 and q = 5]
    factor_pair_order [where N = 7 and draws = "[]" and p = 1 and q = 7]
  by code_simp

section \<open>Period candidates\<close>

text \<open>
  Claim C8. On the phase 0 \<^verbatim>\<open>get_r_candidates\<close> returns the one-element list \<open>[1]\<close>:
  it returns a result, the result is not empty, and it contains the candidate 1.
\<close>

theorem get_r_candidates_phase_zero:
  "get_r_candidates 0 = [1] \<and> get_r_candidates 0 \<noteq> [] \<and> 1 \<in> set (get_r_candidates 0)"
  by (simp add: get_r_candidates_def continued_fraction_convergents_def
      continued_fraction_iterator.simps)

section \<open>Properties of the error-rate upper bound\<close>







section \<open>Correctness of \<open>is_prime\<close>\<close>

lemma not_prime_intI:
  assumes "d dvd n" "1 < d" "d < n"
  shows "\<not> prime_int n"
  using assms by (auto simp: prime_int_def)

lemma cofactor_bounds:
  fixes n d :: int
  assumes "d dvd n" "1 < d" "d < n"
  shows "d * (n div d) = n" "1 < n div d" "n div d < n"
proof -
  from assms obtain k where k: "n = d * k" by (auto elim: dvdE)
  with assms have kd: "n div d = k" by simp
  show "d * (n div d) = n" using k kd by simp
  have "0 < k"
    using assms k by (metis less_trans mult_pos_neg not_less_iff_gr_or_eq zero_less_mult_pos zero_less_one mult_zero_right)
  have "k \<noteq> 1" using k assms by auto
  with \<open>0 < k\<close> have "1 < k" by simp
  then show "1 < n div d" by (simp add: kd)
  have "1 * k < d * k" using assms \<open>0 < k\<close> by (intro mult_strict_right_mono) simp_all
  then show "n div d < n" using k kd by simp
qed

lemma is_prime_loop_correct:
  assumes "5 \<le> i" "i mod 6 = 5" "1 < n" "\<forall>d. 2 \<le> d \<and> d < i \<longrightarrow> \<not> d dvd n"
  shows "is_prime_loop n i \<longleftrightarrow> prime_int n"
  using assms
proof (induction n i rule: is_prime_loop.induct)
  case (1 n i)
  show ?case
  proof (cases "i * i \<le> n")
    case False
    have "\<not> d dvd n" if d: "2 \<le> d" "d \<le> n - 1" for d
    proof
      assume dv: "d dvd n"
      from cofactor_bounds [OF dv] d
      have k: "d * (n div d) = n" "1 < n div d" "n div d < n" by simp_all
      have kd: "n div d dvd n" using k(1) by (metis dvd_triv_right)
      from "1.prems"(4) dv d have "i \<le> d" by force
      moreover have "i \<le> n div d"
      proof (rule ccontr)
        assume "\<not> i \<le> n div d"
        with k(2) have "2 \<le> n div d \<and> n div d < i" by simp
        with "1.prems"(4) kd show False by blast
      qed
      ultimately have "i * i \<le> d * (n div d)"
        using "1.prems"(1) by (intro mult_mono) simp_all
      with k(1) False show False by simp
    qed
    then have "prime_int n" using "1.prems"(3) by (auto simp: prime_int_def)
    moreover have "is_prime_loop n i" using False by simp
    ultimately show ?thesis by simp
  next
    case True
    have big: "i + 2 < n"
    proof -
      have "5 * i \<le> i * i" using "1.prems"(1) by (intro mult_right_mono) simp_all
      with True "1.prems"(1) show ?thesis by linarith
    qed
    show ?thesis
    proof (cases "n mod i = 0 \<or> n mod (i + 2) = 0")
      case True
      then have "i dvd n \<or> (i + 2) dvd n" by (auto simp: dvd_eq_mod_eq_0)
      then have "\<not> prime_int n"
        using big "1.prems"(1) not_prime_intI [of i n] not_prime_intI [of "i + 2" n] by auto
      moreover have "\<not> is_prime_loop n i"
        using True \<open>i * i \<le> n\<close> by simp
      ultimately show ?thesis by simp
    next
      case False
      have nd: "\<not> i dvd n" "\<not> (i + 2) dvd n"
        using False by (auto simp: dvd_eq_mod_eq_0)
      have n2: "\<not> 2 dvd n" and n3: "\<not> 3 dvd n"
        using "1.prems"(1,4) by auto
      have inv: "\<forall>d. 2 \<le> d \<and> d < i + 6 \<longrightarrow> \<not> d dvd n"
      proof (intro allI impI)
        fix d assume d: "2 \<le> d \<and> d < i + 6"
        show "\<not> d dvd n"
        proof (cases "d < i")
          case True
          with d "1.prems"(4) show ?thesis by simp
        next
          case False
          with d consider "d = i" | "d = i + 1" | "d = i + 2" | "d = i + 3" | "d = i + 4" | "d = i + 5"
            by linarith
          then show ?thesis
          proof cases
            case 1 with nd show ?thesis by simp
          next
            case 3 with nd show ?thesis by simp
          next
            case 2
            have "2 dvd d" using 2 "1.prems"(2) by presburger
            with n2 show ?thesis using dvd_trans by blast
          next
            case 4
            have "2 dvd d" using 4 "1.prems"(2) by presburger
            with n2 show ?thesis using dvd_trans by blast
          next
            case 6
            have "2 dvd d" using 6 "1.prems"(2) by presburger
            with n2 show ?thesis using dvd_trans by blast
          next
            case 5
            have "3 dvd d" using 5 "1.prems"(2) by presburger
            with n3 show ?thesis using dvd_trans by blast
          qed
        qed
      qed
      have "is_prime_loop n (i + 6) \<longleftrightarrow> prime_int n"
      proof (rule "1.IH")
        show "i * i \<le> n" by fact
        show "\<not> (n mod i = 0 \<or> n mod (i + 2) = 0)" by fact
        show "5 \<le> i + 6" using "1.prems"(1) by simp
        show "(i + 6) mod 6 = 5" using "1.prems"(2) by presburger
        show "1 < n" by fact
        show "\<forall>d. 2 \<le> d \<and> d < i + 6 \<longrightarrow> \<not> d dvd n" by fact
      qed
      moreover have "is_prime_loop n i = is_prime_loop n (i + 6)"
        using False \<open>i * i \<le> n\<close> by (subst is_prime_loop.simps) simp
      ultimately show ?thesis by simp
    qed
  qed
qed

lemma is_prime_correct: "is_prime n \<longleftrightarrow> prime_int n"
proof -
  consider "n \<le> 1" | "n = 2" | "n = 3" | "3 < n" "n mod 2 = 0 \<or> n mod 3 = 0"
    | "3 < n" "n mod 2 \<noteq> 0" "n mod 3 \<noteq> 0"
    by fastforce
  then show ?thesis
  proof cases
    case 1
    then show ?thesis by (simp add: is_prime_def prime_int_def)
  next
    case 2
    then show ?thesis by (simp add: is_prime_def prime_int_def)
  next
    case 3
    have "{2..2::int} = {2}" by auto
    with 3 show ?thesis by (simp add: is_prime_def prime_int_def)
  next
    case 4
    then have "2 dvd n \<or> 3 dvd n" by (auto simp: dvd_eq_mod_eq_0)
    with 4(1) have "\<not> prime_int n"
      using not_prime_intI [of 2 n] not_prime_intI [of 3 n] by auto
    with 4 show ?thesis by (simp add: is_prime_def)
  next
    case 5
    have n2: "\<not> 2 dvd n" and n3: "\<not> 3 dvd n"
      using 5 by (auto simp: dvd_eq_mod_eq_0)
    have inv: "\<forall>d. 2 \<le> d \<and> d < 5 \<longrightarrow> \<not> d dvd n"
    proof (intro allI impI)
      fix d :: int assume "2 \<le> d \<and> d < 5"
      then consider "d = 2" | "d = 3" | "d = 4" by linarith
      then show "\<not> d dvd n"
      proof cases
        case 1 with n2 show ?thesis by simp
      next
        case 2 with n3 show ?thesis by simp
      next
        case 3
        have "(2::int) dvd 4" by simp
        with 3 n2 show ?thesis using dvd_trans by blast
      qed
    qed
    have "is_prime_loop n 5 \<longleftrightarrow> prime_int n"
      using 5(1) inv by (intro is_prime_loop_correct) simp_all
    with 5 show ?thesis by (simp add: is_prime_def)
  qed
qed

text \<open>
  Claim C10. For every integer \<open>n\<close>, \<^verbatim>\<open>is_prime(n)\<close> returns \<open>True\<close> if and only if
  \<open>n\<close> is prime. In particular it returns \<open>False\<close> for every \<open>n \<le> 1\<close> and \<open>True\<close> for 2
  and 3, and for larger \<open>n\<close> the trial division by the numbers \<open>6k \<plusminus> 1\<close> up to the
  square root of \<open>n\<close> decides primality.
\<close>

theorem is_prime_iff_prime:
  "(is_prime n \<longleftrightarrow> prime_int n)
   \<and> (n \<le> 1 \<longrightarrow> \<not> is_prime n)
   \<and> is_prime 2 \<and> is_prime 3
   \<and> (3 < n \<longrightarrow> (is_prime n \<longleftrightarrow> n mod 2 \<noteq> 0 \<and> n mod 3 \<noteq> 0 \<and> is_prime_loop n 5))
   \<and> (3 < n \<and> n mod 2 \<noteq> 0 \<and> n mod 3 \<noteq> 0 \<longrightarrow> (is_prime_loop n 5 \<longleftrightarrow> prime_int n))"
proof (intro conjI impI)
  show "is_prime n \<longleftrightarrow> prime_int n" by (rule is_prime_correct)
  show "is_prime 2" "is_prime 3" by (simp_all add: is_prime_def)
next
  assume "n \<le> 1"
  then show "\<not> is_prime n" by (simp add: is_prime_def)
next
  assume "3 < n"
  then show "is_prime n \<longleftrightarrow> n mod 2 \<noteq> 0 \<and> n mod 3 \<noteq> 0 \<and> is_prime_loop n 5"
    by (auto simp: is_prime_def)
next
  assume h: "3 < n \<and> n mod 2 \<noteq> 0 \<and> n mod 3 \<noteq> 0"
  then have "is_prime n \<longleftrightarrow> is_prime_loop n 5" by (auto simp: is_prime_def)
  then show "is_prime_loop n 5 \<longleftrightarrow> prime_int n" by (simp add: is_prime_correct)
qed

text \<open>The statement at the prime 29, where the loop runs once, and at \<open>n = 1\<close>.\<close>

theorem is_prime_iff_prime_witness:
  "is_prime 29 \<and> prime_int 29 \<and> (3::int) < 29 \<and> (29::int) mod 2 \<noteq> 0 \<and> (29::int) mod 3 \<noteq> 0
   \<and> is_prime_loop 29 5 \<and> (1::int) \<le> 1 \<and> \<not> is_prime 1"
  using is_prime_iff_prime [of 29] is_prime_iff_prime [of 1]
  by (simp add: is_prime_def)

section \<open>The classical driver on primes\<close>

text \<open>
  Claim C4 as stated fails at the prime 2: \<^verbatim>\<open>classical_Shor\<close> tests \<^verbatim>\<open>N % 2 == 0\<close>
  before it tests for primality, so \<^verbatim>\<open>classical_Shor(2)\<close> returns \<open>(2, 2 div 2) = (2, 1)\<close>
  and not \<open>(1, 2)\<close>.
\<close>

theorem classical_Shor_prime_two_counterexample:
  "is_prime 2 \<and> classical_Shor 2 [] = Some (Inr (2, 1))
   \<and> classical_Shor 2 [] \<noteq> Some (Inr (1, 2))"
  by (simp add: classical_Shor_def is_prime_def)

text \<open>
  Claim C4, amended. For every odd prime \<open>N\<close>, \<^verbatim>\<open>classical_Shor(N)\<close> returns the
  degenerate pair \<open>(1, N)\<close>, whatever the random draws would be.
\<close>

theorem classical_Shor_odd_prime:
  assumes "prime_int N" and "N \<noteq> 2"
  shows "classical_Shor N draws = Some (Inr (1, N))"
proof -
  from assms have "2 < N" by (auto simp: prime_int_def)
  with assms(1) have "\<not> 2 dvd N" using not_prime_intI [of 2 N] by auto
  then have "N mod 2 \<noteq> 0" by (simp add: dvd_eq_mod_eq_0)
  moreover have "is_prime N" using assms(1) by (simp add: is_prime_correct)
  ultimately show ?thesis by (simp add: classical_Shor_def)
qed

text \<open>The statement at the prime 13, with no draws.\<close>

theorem classical_Shor_odd_prime_witness:
  "prime_int 13 \<and> (13::int) \<noteq> 2 \<and> classical_Shor 13 [] = Some (Inr (1, 13))"
proof -
  have p: "prime_int 13" by code_simp
  from classical_Shor_odd_prime [OF p, of "[]"] p show ?thesis by simp
qed

section \<open>Termination and result of \<open>find_period_classical\<close>\<close>

lemma power_mod_range:
  fixes g N :: int
  assumes N: "1 < N" and cop: "coprime g N"
  shows "g ^ k mod N \<in> {1..N - 1}"
proof -
  have "0 \<le> g ^ k mod N" "g ^ k mod N < N" using N by simp_all
  moreover have "g ^ k mod N \<noteq> 0"
  proof
    assume "g ^ k mod N = 0"
    then have "N dvd g ^ k" by (simp add: dvd_eq_mod_eq_0)
    moreover have "coprime (g ^ k) N" using cop by simp
    ultimately have "is_unit N" by (metis coprime_common_divisor dvd_refl)
    with N show False by simp
  qed
  ultimately show ?thesis by simp
qed

lemma power_cycle:
  fixes g N :: int
  assumes N: "1 < N" and cop: "coprime g N" and ij: "i < j"
    and eq: "g ^ i mod N = g ^ j mod N"
  shows "g ^ (j - i) mod N = 1"
proof -
  have "g ^ j = g ^ i * g ^ (j - i)" using ij by (simp flip: power_add)
  then have "g ^ j - g ^ i = g ^ i * (g ^ (j - i) - 1)" by (simp add: algebra_simps)
  moreover have "N dvd g ^ j - g ^ i" using eq [symmetric] by (simp add: mod_eq_dvd_iff)
  ultimately have "N dvd g ^ i * (g ^ (j - i) - 1)" by simp
  moreover have "coprime N (g ^ i)" using cop by (simp add: coprime_commute)
  ultimately have "N dvd g ^ (j - i) - 1" by (simp add: coprime_dvd_mult_right_iff)
  then have "g ^ (j - i) mod N = 1 mod N" by (simp add: mod_eq_dvd_iff)
  with N show ?thesis by simp
qed

lemma order_exists:
  fixes g N :: int
  assumes N: "1 < N" and cop: "coprime g N"
  shows "\<exists>e. 0 < e \<and> int e < N \<and> g ^ e mod N = 1"
proof -
  let ?f = "\<lambda>k::nat. g ^ k mod N"
  let ?A = "{0..<nat N}"
  have sub: "?f ` ?A \<subseteq> {1..N - 1}" using power_mod_range [OF N cop] by blast
  have "card (?f ` ?A) \<le> card {1..N - 1}" by (rule card_mono [OF _ sub]) simp
  also have "\<dots> < card ?A" using N by simp
  finally have "\<not> inj_on ?f ?A" by (rule pigeonhole)
  then obtain i j where ij: "i \<in> ?A" "j \<in> ?A" "i \<noteq> j" "?f i = ?f j"
    by (auto simp: inj_on_def)
  show ?thesis
  proof (cases "i < j")
    case True
    from power_cycle [OF N cop True ij(4)] have "g ^ (j - i) mod N = 1" .
    moreover have "0 < j - i" using True by simp
    moreover have "int (j - i) < N" using ij(2) True by auto
    ultimately show ?thesis by blast
  next
    case False
    with ij(3) have lt: "j < i" by simp
    from power_cycle [OF N cop lt ij(4) [symmetric]] have "g ^ (i - j) mod N = 1" .
    moreover have "0 < i - j" using lt by simp
    moreover have "int (i - j) < N" using ij(1) lt by auto
    ultimately show ?thesis by blast
  qed
qed

lemma find_period_loop_reaches:
  assumes "e0 \<le> e" "g ^ e mod N = 1" "\<forall>k. e0 \<le> k \<and> k < e \<longrightarrow> g ^ k mod N \<noteq> 1"
  shows "find_period_loop g N e0 = Some e"
  using assms
proof (induction "e - e0" arbitrary: e0)
  case 0
  then have "e0 = e" by simp
  with "0.prems"(2) show ?case by (subst find_period_loop.simps) simp
next
  case (Suc d)
  then have lt: "e0 < e" by simp
  with Suc.prems(3) have ne: "g ^ e0 mod N \<noteq> 1" by simp
  have "find_period_loop g N (e0 + 1) = Some e"
  proof (rule Suc.hyps(1))
    show "d = e - (e0 + 1)" using Suc.hyps(2) by simp
    show "e0 + 1 \<le> e" using lt by simp
    show "g ^ e mod N = 1" by fact
    show "\<forall>k. e0 + 1 \<le> k \<and> k < e \<longrightarrow> g ^ k mod N \<noteq> 1" using Suc.prems(3) by simp
  qed
  with ne show ?case by (subst find_period_loop.simps) simp
qed

lemma find_period_classical_order:
  fixes g N :: int
  assumes N: "1 < N" and cop: "coprime g N"
  shows "\<exists>e. find_period_classical g N = Some (Inr e) \<and> 0 < e \<and> int e < N
            \<and> g ^ e mod N = 1 \<and> (\<forall>k. 0 < k \<and> k < e \<longrightarrow> g ^ k mod N \<noteq> 1)"
proof -
  define P where "P e \<longleftrightarrow> 0 < e \<and> g ^ e mod N = 1" for e :: nat
  from order_exists [OF N cop] obtain e' where e': "P e'" "int e' < N" by (auto simp: P_def)
  define e where "e = (LEAST e. P e)"
  have Pe: "P e" unfolding e_def using e'(1) by (rule LeastI)
  have le: "e \<le> e'" unfolding e_def using e'(1) by (rule Least_le)
  have least: "\<not> P k" if "k < e" for k
    using that not_less_Least unfolding e_def by blast
  have "find_period_loop g N 1 = Some e"
  proof (rule find_period_loop_reaches)
    show "1 \<le> e" using Pe by (simp add: P_def)
    show "g ^ e mod N = 1" using Pe by (simp add: P_def)
    show "\<forall>k. 1 \<le> k \<and> k < e \<longrightarrow> g ^ k mod N \<noteq> 1" using least by (auto simp: P_def)
  qed
  then have "find_period_classical g N = Some (Inr e)"
    using N by (simp add: find_period_classical_def)
  moreover have "\<forall>k. 0 < k \<and> k < e \<longrightarrow> g ^ k mod N \<noteq> 1" using least by (auto simp: P_def)
  ultimately show ?thesis using Pe le e'(2) by (auto simp: P_def)
qed

text \<open>
  Claim C6. For all integers \<open>g\<close> and \<open>N\<close> with \<open>N > 1\<close> and \<open>gcd g N = 1\<close>,
  \<^verbatim>\<open>find_period_classical(g, N)\<close> returns, and what it returns is the multiplicative
  order of \<open>g\<close> modulo \<open>N\<close>: the smallest positive \<open>e\<close> with \<open>g\<^sup>e mod N = 1\<close>. The exponent
  starts at 1 and every iteration of the loop adds 1 to it, so the loop makes \<open>e - 1\<close>
  iterations; as \<open>e < N\<close>, these are fewer than \<open>N\<close>.
\<close>

theorem find_period_classical_terminates:
  assumes "1 < N" and "gcd g N = 1"
  shows "\<exists>e. find_period_classical g N = Some (Inr e) \<and> 0 < e \<and> int e < N
            \<and> g ^ e mod N = 1 \<and> (\<forall>k. 0 < k \<and> k < e \<longrightarrow> g ^ k mod N \<noteq> 1)"
  using assms by (intro find_period_classical_order) (simp_all add: coprime_iff_gcd_eq_1)

text \<open>The statement at \<open>g = 2\<close>, \<open>N = 15\<close>, where the order is 4.\<close>

theorem find_period_classical_terminates_witness:
  "(1::int) < 15 \<and> gcd (2::int) 15 = 1 \<and> find_period_classical 2 15 = Some (Inr 4)"
proof -
  have "\<exists>e. find_period_classical 2 15 = Some (Inr e)"
    using find_period_classical_terminates [of 15 2] by auto
  moreover have "find_period_classical 2 15 = Some (Inr 4)" by code_simp
  ultimately show ?thesis by simp
qed

section \<open>Nontrivial factors from \<open>classical_Shor\<close>\<close>

lemma nontrivial_gcd:
  fixes N :: int
  assumes N: "0 < N" and p: "gcd x N \<noteq> 1" "gcd x N \<noteq> N"
  shows "1 < gcd x N" "gcd x N < N"
proof -
  have "0 \<le> gcd x N" by simp
  moreover have "gcd x N \<noteq> 0" using N by simp
  ultimately show "1 < gcd x N" using p(1) by linarith
  have "gcd x N \<le> N" using N by (rule gcd_le2_int)
  with p(2) show "gcd x N < N" by simp
qed

lemma factor_with_cofactor:
  fixes N :: int
  assumes "0 < N" "gcd x N \<noteq> 1" "gcd x N \<noteq> N" and pq: "p = gcd x N" "q = N div gcd x N"
  shows "p * q = N \<and> 1 < p \<and> p < N \<and> 1 < q \<and> q < N"
proof -
  note b = nontrivial_gcd [OF assms(1-3)]
  have "gcd x N dvd N" by simp
  from cofactor_bounds [OF this b] b show ?thesis unfolding pq by blast
qed

lemma classical_Shor_loop_nontrivial:
  assumes N: "2 < N"
    and draws: "\<forall>a\<in>set draws. 2 \<le> a \<and> a \<le> N - 1"
    and ret: "classical_Shor_loop N draws = Some (Inr (p, q))"
  shows "p * q = N \<and> 1 < p \<and> p < N \<and> 1 < q \<and> q < N"
  using draws ret
proof (induction draws)
  case Nil
  then show ?case using N by simp
next
  case (Cons a draws)
  have N0: "0 < N" and N2: "\<not> N - 1 < 2" using N by simp_all
  from Cons.prems(1) have a: "2 \<le> a" "a \<le> N - 1" and rest: "\<forall>a\<in>set draws. 2 \<le> a \<and> a \<le> N - 1"
    by simp_all
  show ?case
  proof (cases "gcd a N \<noteq> 1")
    case True
    have "gcd a N \<le> a" using a(1) by (intro gcd_le1_int) simp
    with a(2) have "gcd a N \<noteq> N" by simp
    moreover have "p = gcd a N" "q = N div gcd a N"
      using Cons.prems(2) True N2 by auto
    ultimately show ?thesis using N0 True by (intro factor_with_cofactor)
  next
    case False
    then have g1: "gcd a N = 1" by simp
    show ?thesis
    proof (cases "find_period_classical a N")
      case None
      with Cons.prems(2) g1 N2 show ?thesis by simp
    next
      case (Some res)
      show ?thesis
      proof (cases res)
        case (Inl err)
        with Some Cons.prems(2) g1 N2 show ?thesis by simp
      next
        case (Inr r)
        define x where "x = a ^ (r div 2) mod N"
        have step: "classical_Shor_loop N (a # draws) =
            (if r mod 2 = 0 then
               (if gcd (x - 1) N \<noteq> 1 \<and> gcd (x - 1) N \<noteq> N
                then Some (Inr (gcd (x - 1) N, N div gcd (x - 1) N))
                else if gcd (x + 1) N \<noteq> 1 \<and> gcd (x + 1) N \<noteq> N
                then Some (Inr (gcd (x + 1) N, N div gcd (x + 1) N))
                else classical_Shor_loop N draws)
             else classical_Shor_loop N draws)"
          using Some Inr g1 N2 by (simp add: Let_def x_def)
        consider (p) "r mod 2 = 0" "gcd (x - 1) N \<noteq> 1" "gcd (x - 1) N \<noteq> N"
          | (q) "r mod 2 = 0" "\<not> (gcd (x - 1) N \<noteq> 1 \<and> gcd (x - 1) N \<noteq> N)"
                "gcd (x + 1) N \<noteq> 1" "gcd (x + 1) N \<noteq> N"
          | (again) "r mod 2 \<noteq> 0 \<or>
                \<not> (gcd (x - 1) N \<noteq> 1 \<and> gcd (x - 1) N \<noteq> N)
                \<and> \<not> (gcd (x + 1) N \<noteq> 1 \<and> gcd (x + 1) N \<noteq> N)"
          by argo
        then show ?thesis
        proof cases
          case p
          have "p = gcd (x - 1) N" "q = N div gcd (x - 1) N"
            using Cons.prems(2) p unfolding step by auto
          with N0 p(2,3) show ?thesis by (intro factor_with_cofactor)
        next
          case q
          have "classical_Shor_loop N (a # draws) = Some (Inr (gcd (x + 1) N, N div gcd (x + 1) N))"
            unfolding step using q by auto
          with Cons.prems(2) have "p = gcd (x + 1) N" "q = N div gcd (x + 1) N"
            by auto
          with N0 q(3,4) show ?thesis by (intro factor_with_cofactor)
        next
          case again
          then have "classical_Shor_loop N (a # draws) = classical_Shor_loop N draws"
            unfolding step by auto
          with Cons.prems(2) have "classical_Shor_loop N draws = Some (Inr (p, q))" by simp
          with rest show ?thesis by (rule Cons.IH)
        qed
      qed
    qed
  qed
qed

text \<open>
  Claim C5. Let \<open>N\<close> be composite and let every draw of \<^verbatim>\<open>random.randint(2, N - 1)\<close>
  lie in its range. Whenever \<^verbatim>\<open>classical_Shor(N)\<close> returns a pair \<open>(p, q)\<close>, on the
  even branch, on the \<open>gcd a N \<noteq> 1\<close> branch or on either gcd branch of an even order,
  then \<open>p * q = N\<close>, \<open>1 < p < N\<close> and \<open>1 < q < N\<close>.
\<close>

theorem classical_Shor_nontrivial:
  assumes "1 < N" and "\<not> prime_int N"
    and "\<forall>a\<in>set draws. 2 \<le> a \<and> a \<le> N - 1"
    and "classical_Shor N draws = Some (Inr (p, q))"
  shows "p * q = N \<and> 1 < p \<and> p < N \<and> 1 < q \<and> q < N"
proof (cases "N mod 2 = 0")
  case True
  then have dv: "2 dvd N" by (simp add: dvd_eq_mod_eq_0)
  have "N \<noteq> 2" using assms(2) by (auto simp: prime_int_def)
  with dv assms(1) have "2 < N" by (cases "N = 2") auto
  from cofactor_bounds [OF dv _ this] have "2 * (N div 2) = N" "1 < N div 2" "N div 2 < N"
    by simp_all
  moreover have "p = 2" "q = N div 2" using assms(4) True by (simp_all add: classical_Shor_def)
  ultimately show ?thesis using \<open>2 < N\<close> by simp
next
  case False
  have "\<not> is_prime N" using assms(2) by (simp add: is_prime_correct)
  with False assms(4) have loop: "classical_Shor_loop N draws = Some (Inr (p, q))"
    by (simp add: classical_Shor_def)
  have "N \<noteq> 2" using False by auto
  with assms(1) have "2 < N" by simp
  then show ?thesis using assms(3) loop by (rule classical_Shor_loop_nontrivial)
qed

text \<open>
  The statement at \<open>N = 15\<close> with the draws 14 and 2: the base 14 has order 2 and yields
  only the trivial divisors 1 and 15, the base 2 has order 4 and yields the factor 3.
\<close>

theorem classical_Shor_nontrivial_witness:
  "(1::int) < 15 \<and> \<not> prime_int 15 \<and> classical_Shor 15 [14, 2] = Some (Inr (3, 5))
   \<and> (3::int) * 5 = 15 \<and> (1::int) < 3 \<and> (3::int) < 15 \<and> (1::int) < 5 \<and> (5::int) < 15"
proof -
  have c: "\<not> prime_int 15" using not_prime_intI [of 3 15] by simp
  have d: "\<forall>a\<in>set [14, 2::int]. 2 \<le> a \<and> a \<le> 15 - 1" by simp
  have r: "classical_Shor 15 [14, 2] = Some (Inr (3, 5))" by code_simp
  from classical_Shor_nontrivial [OF _ c d r] c r show ?thesis by simp
qed

section \<open>The candidates are denominators of convergents\<close>

lemma quotient_of_coprime_fraction:
  assumes "0 < q" "coprime p q"
  shows "quotient_of (of_int p / of_int q) = (p, q)"
  using assms
  by (simp add: Fract_of_int_quotient [symmetric] quotient_of_Fract normalize_stable)

lemma coprime_of_determinant:
  fixes p q p' q' :: int
  assumes "\<bar>p * q' - p' * q\<bar> = 1"
  shows "coprime p q"
proof (rule coprimeI)
  fix c assume "c dvd p" "c dvd q"
  then have "c dvd p * q' - p' * q" by simp
  then have "c dvd \<bar>p * q' - p' * q\<bar>" by simp
  with assms show "is_unit c" by simp
qed

lemma convergents_from_denominators:
  assumes "1 \<le> q_1" "0 \<le> q_2" "\<bar>p_1 * q_2 - p_2 * q_1\<bar> = 1" "\<forall>a\<in>set cf. 1 \<le> a"
  shows "map (\<lambda>rat. nat (snd (quotient_of rat))) (convergents_from p_2 q_2 p_1 q_1 cf)
         = map nat (denominators_from q_2 q_1 cf)"
  using assms
proof (induction cf arbitrary: p_2 q_2 p_1 q_1)
  case Nil
  then show ?case by simp
next
  case (Cons a cf)
  define p where "p = a * p_1 + p_2"
  define q where "q = a * q_1 + q_2"
  have a: "1 \<le> a" using Cons.prems(4) by simp
  have "1 * q_1 \<le> a * q_1" using a Cons.prems(1) by (intro mult_right_mono) simp_all
  then have q1: "q_1 \<le> q" using Cons.prems(2) by (simp add: q_def)
  then have qpos: "0 < q" using Cons.prems(1) by simp
  have det: "p * q_1 - p_1 * q = - (p_1 * q_2 - p_2 * q_1)"
    by (simp add: p_def q_def algebra_simps)
  then have det': "\<bar>p * q_1 - p_1 * q\<bar> = 1" using Cons.prems(3) by simp
  have "coprime p q" using det' by (rule coprime_of_determinant)
  with qpos have quot: "quotient_of (of_int p / of_int q) = (p, q)"
    by (rule quotient_of_coprime_fraction)
  have IH: "map (\<lambda>rat. nat (snd (quotient_of rat))) (convergents_from p_1 q_1 p q cf)
         = map nat (denominators_from q_1 q cf)"
  proof (rule Cons.IH)
    show "1 \<le> q" using qpos by simp
    show "0 \<le> q_1" using Cons.prems(1) by simp
    show "\<bar>p * q_1 - p_1 * q\<bar> = 1" by fact
    show "\<forall>a\<in>set cf. 1 \<le> a" using Cons.prems(4) by simp
  qed
  show ?case
    using quot IH by (simp add: Let_def p_def [symmetric] q_def [symmetric])
qed

lemma denominators_from_increasing:
  assumes "1 \<le> q_1" "1 \<le> q_2" "\<forall>a\<in>set cf. 1 \<le> a"
  shows "sorted_wrt (<) (denominators_from q_2 q_1 cf)
         \<and> (\<forall>d\<in>set (denominators_from q_2 q_1 cf). q_1 < d)"
  using assms
proof (induction cf arbitrary: q_2 q_1)
  case Nil
  then show ?case by simp
next
  case (Cons a cf)
  define q where "q = a * q_1 + q_2"
  have a: "1 \<le> a" using Cons.prems(3) by simp
  have "1 * q_1 \<le> a * q_1" using a Cons.prems(1) by (intro mult_right_mono) simp_all
  then have lt: "q_1 < q" using Cons.prems(2) by (simp add: q_def)
  have IH: "sorted_wrt (<) (denominators_from q_1 q cf)
         \<and> (\<forall>d\<in>set (denominators_from q_1 q cf). q < d)"
  proof (rule Cons.IH)
    show "1 \<le> q" using lt Cons.prems(1) by simp
    show "1 \<le> q_1" by fact
    show "\<forall>a\<in>set cf. 1 \<le> a" using Cons.prems(3) by simp
  qed
  with lt show ?case
    by (auto simp: Let_def q_def [symmetric])
qed

lemma continued_fraction_iterator_unfold:
  "continued_fraction_iterator x =
     (if x - of_int \<lfloor>x\<rfloor> = 0 then [\<lfloor>x\<rfloor>]
      else \<lfloor>x\<rfloor> # continued_fraction_iterator (1 / (x - of_int \<lfloor>x\<rfloor>)))"
  by (subst continued_fraction_iterator.simps) (simp add: Let_def)

lemma continued_fraction_iterator_nonempty: "continued_fraction_iterator x \<noteq> []"
  by (subst continued_fraction_iterator_unfold) simp

lemma partial_quotients_positive:
  "1 \<le> x \<Longrightarrow> \<forall>a\<in>set (continued_fraction_iterator x). 1 \<le> a"
proof (induction x rule: continued_fraction_iterator.induct)
  case (1 x)
  have fl: "1 \<le> \<lfloor>x\<rfloor>" using "1.prems" by simp
  show ?case
  proof (cases "x - of_int \<lfloor>x\<rfloor> = 0")
    case True
    then show ?thesis using fl by (subst continued_fraction_iterator_unfold) simp
  next
    case False
    define x' where "x' = x - of_int \<lfloor>x\<rfloor>"
    have "0 \<le> x'" "x' < 1" unfolding x'_def by linarith+
    moreover have "x' \<noteq> 0" using False unfolding x'_def .
    ultimately have "0 < x'" by linarith
    with \<open>x' < 1\<close> have "1 \<le> 1 / x'" by simp
    with False have "\<forall>a\<in>set (continued_fraction_iterator (1 / x')). 1 \<le> a"
      unfolding x'_def by (intro "1.IH") simp_all
    then show ?thesis using fl False
      by (subst continued_fraction_iterator_unfold) (simp add: x'_def)
  qed
qed

lemma last_convergent:
  "last (convergents_from p_2 q_2 p_1 q_1 (continued_fraction_iterator t))
     = (of_int p_1 * t + of_int p_2) / (of_int q_1 * t + of_int q_2)"
proof (induction t arbitrary: p_2 q_2 p_1 q_1 rule: continued_fraction_iterator.induct)
  case (1 x)
  define i where "i = \<lfloor>x\<rfloor>"
  define x' where "x' = x - of_int i"
  have x: "x = of_int i + x'" by (simp add: x'_def)
  show ?case
  proof (cases "x' = 0")
    case True
    then have "continued_fraction_iterator x = [i]"
      by (subst continued_fraction_iterator_unfold) (simp add: x'_def i_def)
    then show ?thesis using True x by (simp add: Let_def mult.commute)
  next
    case False
    then have unf: "continued_fraction_iterator x = i # continued_fraction_iterator (1 / x')"
      by (subst continued_fraction_iterator_unfold) (simp add: x'_def i_def)
    define p where "p = i * p_1 + p_2"
    define q where "q = i * q_1 + q_2"
    have IH: "last (convergents_from p_1 q_1 p q (continued_fraction_iterator (1 / x')))
        = (of_int p * (1 / x') + of_int p_1) / (of_int q * (1 / x') + of_int q_1)"
      using False unfolding x'_def i_def by (intro "1.IH") simp_all
    have ne: "convergents_from p_1 q_1 p q (continued_fraction_iterator (1 / x')) \<noteq> []"
      using continued_fraction_iterator_nonempty [of "1 / x'"]
      by (cases "continued_fraction_iterator (1 / x')") (simp_all add: Let_def)
    have "last (convergents_from p_2 q_2 p_1 q_1 (continued_fraction_iterator x))
        = last (convergents_from p_1 q_1 p q (continued_fraction_iterator (1 / x')))"
      using ne by (simp add: unf Let_def p_def q_def)
    also have "\<dots> = (of_int p * (1 / x') + of_int p_1) / (of_int q * (1 / x') + of_int q_1)"
      by (rule IH)
    also have "\<dots> = ((of_int p + of_int p_1 * x') / x') / ((of_int q + of_int q_1 * x') / x')"
      using False by (simp add: field_simps)
    also have "\<dots> = (of_int p + of_int p_1 * x') / (of_int q + of_int q_1 * x')"
      using False by simp
    also have "\<dots> = (of_int p_1 * x + of_int p_2) / (of_int q_1 * x + of_int q_2)"
      by (simp add: p_def q_def x algebra_simps)
    finally show ?thesis .
  qed
qed


lemma denominators_from_start:
  assumes "\<forall>a\<in>set cf. 1 \<le> a"
  shows "sorted_wrt (<) (denominators_from 0 1 cf) \<and> (\<forall>d\<in>set (denominators_from 0 1 cf). 1 \<le> d)"
proof (cases cf)
  case Nil
  then show ?thesis by simp
next
  case (Cons a cf')
  have a: "1 \<le> a" and rest: "\<forall>a\<in>set cf'. 1 \<le> a" using assms Cons by simp_all
  from denominators_from_increasing [OF a _ rest, of 1]
  have "sorted_wrt (<) (denominators_from 1 a cf')" "\<forall>d\<in>set (denominators_from 1 a cf'). a < d"
    by simp_all
  with a show ?thesis unfolding Cons by (auto simp: Let_def)
qed

lemma strictly_increasing_map_nat:
  assumes "sorted_wrt (<) xs" "\<forall>x\<in>set xs. (1::int) \<le> x"
  shows "sorted_wrt (<) (map nat xs)"
  unfolding sorted_wrt_map
  by (rule sorted_wrt_mono_rel [OF _ assms(1)]) (use assms(2) in auto)

lemma get_r_candidates_recurrence:
  assumes "0 \<le> x" "x < 1"
  shows "get_r_candidates x = 1 # map nat (denominators_from 0 1 (tl (continued_fraction_iterator x)))"
    and "\<forall>a\<in>set (tl (continued_fraction_iterator x)). 1 \<le> a"
    and "hd (continued_fraction_iterator x) = 0"
proof -
  have fl: "\<lfloor>x\<rfloor> = 0" using assms by (simp add: floor_eq_iff)
  define cf' where "cf' = tl (continued_fraction_iterator x)"
  have cf: "continued_fraction_iterator x = 0 # cf'"
    unfolding cf'_def by (subst (1 2) continued_fraction_iterator_unfold) (simp add: fl)
  then show "hd (continued_fraction_iterator x) = 0" by simp
  show pos: "\<forall>a\<in>set (tl (continued_fraction_iterator x)). 1 \<le> a"
  proof (cases "x = 0")
    case True
    then show ?thesis by (subst continued_fraction_iterator_unfold) simp
  next
    case False
    with assms have "1 \<le> 1 / x" by simp
    from partial_quotients_positive [OF this] False show ?thesis
      by (subst continued_fraction_iterator_unfold) (simp add: fl)
  qed
  have "map (\<lambda>rat. nat (snd (quotient_of rat))) (convergents_from 1 0 0 1 cf')
         = map nat (denominators_from 0 1 cf')"
    using pos by (intro convergents_from_denominators) (simp_all add: cf'_def)
  then show "get_r_candidates x = 1 # map nat (denominators_from 0 1 (tl (continued_fraction_iterator x)))"
    by (simp add: get_r_candidates_def continued_fraction_convergents_def cf Let_def)
qed

lemma last_get_r_candidates:
  "last (get_r_candidates x) = nat (snd (quotient_of x))"
proof -
  have ne: "convergents_from 0 1 1 0 (continued_fraction_iterator x) \<noteq> []"
    using continued_fraction_iterator_nonempty [of x]
    by (cases "continued_fraction_iterator x") (simp_all add: Let_def)
  have "last (convergents_from 0 1 1 0 (continued_fraction_iterator x)) = x"
    by (simp add: last_convergent)
  with ne show ?thesis
    by (simp add: get_r_candidates_def continued_fraction_convergents_def last_map)
qed

text \<open>
  Claim C9 as stated fails: for a phase above one half the first partial quotient after
  the integer part is 1, so the first two convergents \<open>0/1\<close> and \<open>1/1\<close> have the same
  denominator. The phase \<open>3/4\<close> (the bitstring \<^verbatim>\<open>11\<close>) gives the candidates
  \<open>[1, 1, 4]\<close>, which are not increasing.
\<close>

theorem get_r_candidates_increasing_counterexample:
  "get_r_candidates (3 / 4) = [1, 1, 4] \<and> \<not> sorted_wrt (<) (get_r_candidates (3 / 4))"
  by code_simp

text \<open>
  Claim C9, amended. For every phase \<open>x\<close> in \<open>[0, 1)\<close> \<^verbatim>\<open>get_r_candidates\<close> returns
  a non-empty sequence of positive integers, the denominators \<open>q\<^sub>k\<close> of the successive
  convergents of the continued-fraction expansion of \<open>x\<close>. The sequence starts with 1,
  ends with the denominator of \<open>x\<close> itself, never decreases, and increases strictly
  from its second element on.
\<close>

theorem get_r_candidates_denominators:
  assumes "0 \<le> x" and "x < 1"
  shows "get_r_candidates x = map nat (denominators_from 1 0 (continued_fraction_iterator x))
    \<and> get_r_candidates x \<noteq> []
    \<and> (\<forall>r\<in>set (get_r_candidates x). 0 < r)
    \<and> hd (get_r_candidates x) = 1
    \<and> last (get_r_candidates x) = nat (snd (quotient_of x))
    \<and> sorted (get_r_candidates x)
    \<and> sorted_wrt (<) (tl (get_r_candidates x))"
proof -
  define cf' where "cf' = tl (continued_fraction_iterator x)"
  define ds where "ds = denominators_from 0 1 cf'"
  note rec = get_r_candidates_recurrence [OF assms, folded cf'_def]
  have cf: "continued_fraction_iterator x = 0 # cf'"
    using rec(3) continued_fraction_iterator_nonempty [of x]
    by (cases "continued_fraction_iterator x") (simp_all add: cf'_def)
  have cands: "get_r_candidates x = 1 # map nat ds" using rec(1) by (simp add: ds_def)
  from denominators_from_start [OF rec(2)]
  have ds: "sorted_wrt (<) ds" "\<forall>d\<in>set ds. 1 \<le> d" by (simp_all add: ds_def)
  have strict: "sorted_wrt (<) (map nat ds)" using ds by (rule strictly_increasing_map_nat)
  have pos: "\<forall>r\<in>set (map nat ds). 1 \<le> r" using ds(2) by auto
  have "sorted (map nat ds)" using strict by (rule strict_sorted_imp_sorted)
  with pos have sorted: "sorted (1 # map nat ds)" by simp
  have c1: "get_r_candidates x = map nat (denominators_from 1 0 (continued_fraction_iterator x))"
    by (simp add: cands cf ds_def Let_def)
  have c2: "get_r_candidates x \<noteq> []" by (simp add: cands)
  have c3: "\<forall>r\<in>set (get_r_candidates x). 0 < r"
    unfolding cands using pos by auto
  have c4: "hd (get_r_candidates x) = 1" by (simp add: cands)
  have c5: "last (get_r_candidates x) = nat (snd (quotient_of x))"
    by (rule last_get_r_candidates)
  have c6: "sorted (get_r_candidates x)" using sorted by (simp only: cands)
  have c7: "sorted_wrt (<) (tl (get_r_candidates x))" using strict by (simp add: cands)
  from c1 c2 c3 c4 c5 c6 c7 show ?thesis by (intro conjI)
qed

text \<open>The statement at the phase \<open>171/512\<close>, the bitstring \<^verbatim>\<open>010101011\<close>.\<close>

theorem get_r_candidates_denominators_witness:
  "(0::rat) \<le> 171 / 512 \<and> (171 / 512 :: rat) < 1
   \<and> get_r_candidates (171 / 512) = [1, 2, 3, 512]
   \<and> continued_fraction_iterator (171 / 512) = [0, 2, 1, 170]
   \<and> denominators_from 1 0 [0, 2, 1, 170] = [1, 2, 3, 512]"
proof -
  have "get_r_candidates (171 / 512) =
      map nat (denominators_from 1 0 (continued_fraction_iterator (171 / 512)))"
    using get_r_candidates_denominators [of "171 / 512"] by simp
  moreover have "continued_fraction_iterator (171 / 512) = [0, 2, 1, 170]" by code_simp
  moreover have "denominators_from 1 0 [0, 2, 1, 170] = [1, 2, 3, 512]" by simp
  ultimately show ?thesis by simp
qed

end
